theory Spec2Isabelle
  imports Complex_Main "HOL-Library.Word"
begin

section \<open>Nerdle: probability of solving in two guesses\<close>

text \<open>
  A shallow embedding of \<^verbatim>\<open>nerdle_solve_in_2.py\<close>. The NumPy arrays of the
  program are lists: an \<open>(N, 8)\<close> array is a list of \<open>N\<close> rows, a boolean mask is
  a list (of lists) of booleans, and every vectorised operation is the
  corresponding \<open>map\<close> or \<open>map2\<close> over the rows. Cells of dtype \<open>uint8\<close> are
  \<open>8 word\<close>; the \<open>int32\<close> and \<open>int64\<close> counters never leave the range
  \<open>0..6561\<close> (lemma \<open>count_patterns_range\<close> below) and are \<open>int\<close>. The
  \<open>float64\<close> quotients \<open>num_patterns / N\<close> are the exact quotients in
  \<open>real\<close>. The text of the data file is a list of \<open>char\<close>, that is of
  code points below 256; the solution set is ASCII (digits and operators).
\<close>

type_synonym u8 = "8 word"

subsection \<open>Data loading\<close>

text \<open>
  The exceptions the program can end with. \<open>AssertionError s n\<close> is the
  failed sanity check of \<open>load_solutions\<close>, whose message
  \<^verbatim>\<open>Expected 8-char equation, got '{s}' (len {len(s)})\<close> names the record
  \<open>s\<close> and its length \<open>n\<close>. \<open>OSError\<close> is what \<^verbatim>\<open>open\<close> raises on a
  path it cannot open.
\<close>

datatype error = AssertionError string nat | OSError | IndexError

text \<open>
  The file at a path: none, one that exists but that \<^verbatim>\<open>open\<close> cannot read
  (no permission, a directory), or a text file, given by the lines that
  iterating over the open file yields (each with its line terminator).
\<close>

datatype file_state = Missing | Unreadable | Text_lines "string list"

text \<open>
  \<^verbatim>\<open>str.isspace\<close> on a code point below 256: TAB, LF, VT, FF, CR, the
  separators FS, GS, RS, US, the space, NEL and the no-break space.
\<close>

definition py_isspace :: "char \<Rightarrow> bool" where
  "py_isspace c = ((of_char c :: nat) \<in> {9, 10, 11, 12, 13, 28, 29, 30, 31, 32, 133, 160})"

text \<open>\<^verbatim>\<open>str.strip()\<close>: leading and trailing whitespace removed.\<close>

definition py_strip :: "string \<Rightarrow> string" where
  "py_strip s = rev (dropWhile py_isspace (rev (dropWhile py_isspace s)))"

text \<open>The loop of assertions of lines 65-66: the first record of another length fails.\<close>

fun check_lengths :: "string list \<Rightarrow> error option" where
  "check_lengths [] = None"
| "check_lengths (s # rest) =
     (if length s = 8 then check_lengths rest else Some (AssertionError s (length s)))"

definition load_solutions :: "file_state \<Rightarrow> error + string list" where
  "load_solutions f =
     (case f of
        Missing \<Rightarrow> Inl OSError
      | Unreadable \<Rightarrow> Inl OSError
      | Text_lines lines \<Rightarrow>
          (let solutions = map py_strip (filter (\<lambda>line. py_strip line \<noteq> []) lines)
           in case check_lengths solutions of
                Some e \<Rightarrow> Inl e
              | None \<Rightarrow> Inr solutions))"

text \<open>
  The entries of a file: its lines without their leading and trailing
  whitespace, the lines that leave nothing omitted.
\<close>

definition entries :: "string list \<Rightarrow> string list" where
  "entries lines = filter (\<lambda>s. s \<noteq> []) (map py_strip lines)"

text \<open>
  \<open>encode_solutions\<close> fills a zeroed \<open>(n, 8)\<close> array; a string longer than 8
  characters writes outside a row, which raises.
\<close>

definition encode_solutions :: "string list \<Rightarrow> error + u8 list list" where
  "encode_solutions solutions =
     (if \<exists>s\<in>set solutions. 8 < length s then Inl IndexError
      else Inr (map (\<lambda>s. map of_char s @ replicate (8 - length s) 0) solutions))"

subsection \<open>Feedback computation\<close>

text \<open>
  \<open>compute_feedback\<close> is documented for a guess of shape \<open>(8,)\<close> and secrets of
  shape \<open>(N, 8)\<close>, which is what \<open>encode_solutions\<close> produces and all that
  \<open>main\<close> passes. The theorems below state these shapes as hypotheses where
  they matter; on other shapes NumPy broadcasts or raises, and the model says
  nothing.
\<close>

text \<open>\<^verbatim>\<open>np.unique\<close>: the sorted distinct values of an array.\<close>

definition np_unique :: "'a::linorder list \<Rightarrow> 'a list" where
  "np_unique xs = sort (remdups xs)"

text \<open>\<^verbatim>\<open>mask.sum(axis=1)\<close> on one row: the number of \<open>True\<close> cells.\<close>

definition count_true :: "bool list \<Rightarrow> int" where
  "count_true bs = int (length (filter (\<lambda>b. b) bs))"

text \<open>
  One iteration of the loop \<^verbatim>\<open>for p in guess_positions\<close> (lines 120-124), on
  all secrets at once. The state is the pair of the arrays \<open>result\<close> and
  \<open>assigned\<close>.
\<close>

definition purple_step ::
  "bool list list \<Rightarrow> int list \<Rightarrow> nat \<Rightarrow> u8 list list \<times> int list \<Rightarrow> u8 list list \<times> int list" where
  "purple_step greens remaining p st =
     (case st of (result, assigned) \<Rightarrow>
        let is_green_here = map (\<lambda>row. row ! p) greens;
            can_purple = map2 (\<lambda>g (a, r). \<not> g \<and> a < r) is_green_here (zip assigned remaining)
        in (map2 (\<lambda>row cp. if cp then row[p := 1] else row) result can_purple,
            map2 (\<lambda>a cp. if cp then a + 1 else a) assigned can_purple))"

text \<open>One iteration of the loop \<^verbatim>\<open>for char in np.unique(guess)\<close> (lines 109-124).\<close>

definition char_pass ::
  "u8 list \<Rightarrow> u8 list list \<Rightarrow> bool list list \<Rightarrow> u8 \<Rightarrow> u8 list list \<Rightarrow> u8 list list" where
  "char_pass guess all_secrets greens char result =
     (let guess_positions = filter (\<lambda>p. guess ! p = char) [0..<length guess];
          char_in_secret = map (map (\<lambda>x. x = char)) all_secrets;
          char_green = map2 (map2 (\<and>)) greens char_in_secret;
          remaining = map2 (-) (map count_true char_in_secret) (map count_true char_green);
          assigned = replicate (length all_secrets) 0
      in fst (fold (purple_step greens remaining) guess_positions (result, assigned)))"

text \<open>The array \<open>result\<close> after both passes (lines 101-124).\<close>

definition feedback_result :: "u8 list \<Rightarrow> u8 list list \<Rightarrow> u8 list list" where
  "feedback_result guess all_secrets =
     (let N = length all_secrets;
          result = replicate N (replicate 8 0);
          greens = map (\<lambda>secret. map2 (=) guess secret) all_secrets;
          result = map2 (map2 (\<lambda>r g. if g then 2 else r)) result greens
      in fold (char_pass guess all_secrets greens) (np_unique guess) result)"

definition powers :: "int list" where
  "powers = map (\<lambda>i. 3 ^ i) [0..<8]"

definition compute_feedback :: "u8 list \<Rightarrow> u8 list list \<Rightarrow> int list" where
  "compute_feedback guess all_secrets =
     map (\<lambda>row. sum_list (map2 (*) (map uint row) powers)) (feedback_result guess all_secrets)"

subsection \<open>Main analysis\<close>

definition ALL_GREEN_HASH :: int where
  "ALL_GREEN_HASH = sum_list (map (\<lambda>i. 2 * 3 ^ i) [0..<8])"

text \<open>The body of the loop \<^verbatim>\<open>for gi in range(N)\<close> (lines 160-162).\<close>

definition count_patterns :: "u8 list list \<Rightarrow> nat \<Rightarrow> int" where
  "count_patterns encoded gi =
     (let hashes = compute_feedback (encoded ! gi) encoded;
          unique = np_unique hashes
      in int (length unique) - (if ALL_GREEN_HASH \<in> set unique then 1 else 0))"

definition num_patterns :: "u8 list list \<Rightarrow> int list" where
  "num_patterns encoded = map (count_patterns encoded) [0..<length encoded]"

definition p_solve2 :: "u8 list list \<Rightarrow> real list" where
  "p_solve2 encoded = map (\<lambda>k. real_of_int k / real (length encoded)) (num_patterns encoded)"

text \<open>
  \<^verbatim>\<open>np.argsort\<close> is NumPy's, not the program's, and line 180 calls it with
  its default kind, which is not stable: all that is known of its result is
  that it lists every index once and puts the keys in ascending order; the
  order among equal keys is the library's choice. It enters the model as a
  parameter \<open>argsort\<close>, and \<open>is_argsort\<close> is what is known of it.
\<close>

definition is_argsort :: "real list \<Rightarrow> nat list \<Rightarrow> bool" where
  "is_argsort keys perm \<longleftrightarrow>
     sort perm = [0..<length keys] \<and> sorted (map (\<lambda>i. keys ! i) perm)"

definition order :: "(real list \<Rightarrow> nat list) \<Rightarrow> u8 list list \<Rightarrow> nat list" where
  "order argsort encoded = argsort (map uminus (p_solve2 encoded))"

text \<open>
  Two functions that meet \<open>is_argsort\<close> on every input and differ on equal
  keys: one keeps tied indices in ascending order, the other in descending
  order.
\<close>

definition argsort_stable :: "real list \<Rightarrow> nat list" where
  "argsort_stable keys = sort_key (\<lambda>i. keys ! i) [0..<length keys]"


text \<open>One line of \<^verbatim>\<open>nerdle_results_full.csv\<close>, under its header
  \<^verbatim>\<open>rank,guess,num_patterns,p_solve_in_2\<close>.\<close>

record csv_row =
  col_rank :: nat
  col_guess :: string
  col_num_patterns :: int
  col_p_solve_in_2 :: real

definition csv_rows ::
  "(real list \<Rightarrow> nat list) \<Rightarrow> string list \<Rightarrow> u8 list list \<Rightarrow> csv_row list" where
  "csv_rows argsort solutions encoded =
     map (\<lambda>(rank, idx). \<lparr>col_rank = rank, col_guess = solutions ! idx,
                          col_num_patterns = num_patterns encoded ! idx,
                          col_p_solve_in_2 = p_solve2 encoded ! idx\<rparr>)
       (zip [1..<Suc (length (order argsort encoded))] (order argsort encoded))"

text \<open>
  What the run sees and leaves: the directory of the script, the data file in
  it, and the table it writes there (\<open>None\<close> before it is written). The
  progress and report lines printed on the way carry wall-clock times and are
  not part of the state.
\<close>

record world =
  script_dir :: string
  data_file :: file_state
  results_file :: "csv_row list option"

text \<open>How the process ends: \<^verbatim>\<open>sys.exit(message)\<close>, an uncaught exception, or
  the end of \<^verbatim>\<open>main\<close>.\<close>

datatype outcome = Exit string | Raised error | Finished

definition path_join :: "string \<Rightarrow> string \<Rightarrow> string" where
  "path_join dir name =
     (if dir = [] \<or> last dir = CHR ''/'' then dir @ name else dir @ ''/'' @ name)"

definition data_path :: "world \<Rightarrow> string" where
  "data_path w = path_join (script_dir w) ''NerdleClassicRestricted.txt''"

definition not_found_message :: "string \<Rightarrow> string" where
  "not_found_message path =
     ''ERROR: '' @ path @ '' not found. Download it from '' @
     ''https://github.com/pedrokkrause/Nerdle-Equations''"

text \<open>
  \<^verbatim>\<open>os.path.exists\<close> is true of a file that cannot be read, so only the
  missing file reaches \<^verbatim>\<open>sys.exit\<close>. With an empty list \<^verbatim>\<open>order[0]\<close>
  (line 182) raises before anything is written. The first argument is the
  \<^verbatim>\<open>np.argsort\<close> of the NumPy that the run imports.
\<close>

definition main :: "(real list \<Rightarrow> nat list) \<Rightarrow> world \<Rightarrow> outcome \<times> world" where
  "main argsort w =
     (if data_file w = Missing then (Exit (not_found_message (data_path w)), w)
      else case load_solutions (data_file w) of
        Inl e \<Rightarrow> (Raised e, w)
      | Inr solutions \<Rightarrow>
          (case encode_solutions solutions of
             Inl e \<Rightarrow> (Raised e, w)
           | Inr encoded \<Rightarrow>
               if order argsort encoded = [] then (Raised IndexError, w)
               else (Finished,
                     w\<lparr>results_file := Some (csv_rows argsort solutions encoded)\<rparr>)))"

subsection \<open>The computation on one secret\<close>

text \<open>
  The same three loops with the secret axis removed: what lines 101-124 do to
  the row of one secret. The batched arrays are shown below to be the \<open>map\<close> of
  these over the secrets.
\<close>

definition purple_step_row :: "bool list \<Rightarrow> int \<Rightarrow> nat \<Rightarrow> u8 list \<times> int \<Rightarrow> u8 list \<times> int" where
  "purple_step_row green remaining p st =
     (case st of (row, assigned) \<Rightarrow>
        if \<not> green ! p \<and> assigned < remaining then (row[p := 1], assigned + 1)
        else (row, assigned))"

definition char_pass_row :: "u8 list \<Rightarrow> u8 list \<Rightarrow> bool list \<Rightarrow> u8 \<Rightarrow> u8 list \<Rightarrow> u8 list" where
  "char_pass_row guess secret green char row =
     (let guess_positions = filter (\<lambda>p. guess ! p = char) [0..<length guess];
          char_in_secret = map (\<lambda>x. x = char) secret;
          char_green = map2 (\<and>) green char_in_secret;
          remaining = count_true char_in_secret - count_true char_green
      in fst (fold (purple_step_row green remaining) guess_positions (row, 0)))"

definition feedback_row :: "u8 list \<Rightarrow> u8 list \<Rightarrow> u8 list" where
  "feedback_row guess secret =
     (let green = map2 (=) guess secret;
          row = map2 (\<lambda>r g. if g then 2 else r) (replicate 8 0) green
      in fold (char_pass_row guess secret green) (np_unique guess) row)"

definition encode_row :: "u8 list \<Rightarrow> int" where
  "encode_row row = sum_list (map2 (*) (map uint row) powers)"

subsection \<open>Vocabulary of the feedback rules\<close>

text \<open>
  For a guess \<open>g\<close>, a secret \<open>s\<close> and a character \<open>c\<close>: the positions of \<open>c\<close>
  in the guess where the secret has \<open>c\<close> too (the matches of \<open>c\<close>), the other
  positions of \<open>c\<close> in the guess, left to right, and the number of
  occurrences of \<open>c\<close> in the secret that no match consumes.
\<close>

definition match_positions :: "u8 list \<Rightarrow> u8 list \<Rightarrow> u8 \<Rightarrow> nat list" where
  "match_positions g s c = filter (\<lambda>p. g ! p = c \<and> g ! p = s ! p) [0..<8]"

definition nonmatch_positions :: "u8 list \<Rightarrow> u8 list \<Rightarrow> u8 \<Rightarrow> nat list" where
  "nonmatch_positions g s c = filter (\<lambda>p. g ! p = c \<and> g ! p \<noteq> s ! p) [0..<8]"

definition unconsumed :: "u8 list \<Rightarrow> u8 list \<Rightarrow> u8 \<Rightarrow> nat" where
  "unconsumed g s c = count_list s c - length (match_positions g s c)"

text \<open>The first \<open>unconsumed\<close> non-match positions, and the mark they induce.\<close>

definition present_positions :: "u8 list \<Rightarrow> u8 list \<Rightarrow> u8 \<Rightarrow> nat list" where
  "present_positions g s c = take (unconsumed g s c) (nonmatch_positions g s c)"

definition mark :: "u8 list \<Rightarrow> u8 list \<Rightarrow> nat \<Rightarrow> u8" where
  "mark g s q =
     (if g ! q = s ! q then 2
      else if q \<in> set (present_positions g s (g ! q)) then 1
      else 0)"

text \<open>
  The symbol a pattern hash holds at position \<open>i\<close>: the base-3 digit of weight
  \<open>3 ^ i\<close> (0 = black/absent, 1 = purple/present elsewhere, 2 = green/match).
\<close>

definition pattern_symbol :: "int \<Rightarrow> nat \<Rightarrow> int" where
  "pattern_symbol h i = (h div 3 ^ i) mod 3"

text \<open>Base-3 positional value of a list of digits, least significant first.\<close>

fun horner3 :: "int list \<Rightarrow> int" where
  "horner3 [] = 0"
| "horner3 (x # xs) = x + 3 * horner3 xs"

subsection \<open>The feedback rules in the words of the specification\<close>

text \<open>
  The feedback of one guess against one secret as the specification describes
  it, to be compared with \<open>compute_feedback\<close>. Match pass: every position is
  marked match where guess and secret agree (and absent otherwise). Presence
  pass, for each distinct character \<open>c\<close> of the guess: count the occurrences
  of \<open>c\<close> in the secret that are not at a position marked match; walk the
  positions of \<open>c\<close> in the guess from left to right, and at each one not marked
  match, mark it present-elsewhere and decrement the count if the count is
  still positive, and leave it absent otherwise. Encode: symbol values
  absent = 0, present-elsewhere = 1, match = 2, weighted by \<open>3 ^ i\<close>.
\<close>

datatype symbol = Absent | Present_elsewhere | Match

fun symbol_value :: "symbol \<Rightarrow> int" where
  "symbol_value Absent = 0"
| "symbol_value Present_elsewhere = 1"
| "symbol_value Match = 2"

definition spec_match_pass :: "u8 list \<Rightarrow> u8 list \<Rightarrow> symbol list" where
  "spec_match_pass g s = map (\<lambda>i. if g ! i = s ! i then Match else Absent) [0..<8]"

definition spec_remaining :: "u8 list \<Rightarrow> symbol list \<Rightarrow> u8 \<Rightarrow> nat" where
  "spec_remaining s marks c =
     count_list s c - length (filter (\<lambda>i. s ! i = c \<and> marks ! i = Match) [0..<8])"

fun spec_presence_walk :: "nat list \<Rightarrow> nat \<Rightarrow> symbol list \<Rightarrow> symbol list" where
  "spec_presence_walk [] remaining marks = marks"
| "spec_presence_walk (p # ps) remaining marks =
     (if marks ! p = Match then spec_presence_walk ps remaining marks
      else if 0 < remaining
        then spec_presence_walk ps (remaining - 1) (marks[p := Present_elsewhere])
      else spec_presence_walk ps remaining marks)"

definition spec_presence_pass :: "u8 list \<Rightarrow> u8 list \<Rightarrow> u8 \<Rightarrow> symbol list \<Rightarrow> symbol list" where
  "spec_presence_pass g s c marks =
     spec_presence_walk (filter (\<lambda>p. g ! p = c) [0..<8]) (spec_remaining s marks c) marks"

definition spec_encode :: "symbol list \<Rightarrow> int" where
  "spec_encode marks = (\<Sum>i\<leftarrow>[0..<8]. symbol_value (marks ! i) * 3 ^ i)"

definition spec_feedback :: "u8 list \<Rightarrow> u8 list \<Rightarrow> int" where
  "spec_feedback g s = spec_encode (fold (spec_presence_pass g s) (remdups g) (spec_match_pass g s))"

text \<open>Marks that are match exactly where guess and secret agree.\<close>

definition marks_agree :: "u8 list \<Rightarrow> u8 list \<Rightarrow> symbol list \<Rightarrow> bool" where
  "marks_agree g s marks \<longleftrightarrow> length marks = 8 \<and> (\<forall>i<8. (marks ! i = Match) = (g ! i = s ! i))"

section \<open>The batched arrays are row-wise\<close>

lemma map2_same: "map2 f (map g xs) (map h xs) = map (\<lambda>x. f (g x) (h x)) xs"
  by (induction xs) simp_all

lemma purple_step_rows:
  "purple_step (map fG X) (map fM X) p (map fR X, map fA X) =
     (map (\<lambda>x. fst (purple_step_row (fG x) (fM x) p (fR x, fA x))) X,
      map (\<lambda>x. snd (purple_step_row (fG x) (fM x) p (fR x, fA x))) X)"
  by (induction X) (simp_all add: purple_step_def purple_step_row_def Let_def)

lemma fold_purple_step_rows:
  "fold (purple_step (map fG X) (map fM X)) ps (map fR X, map fA X) =
     (map (\<lambda>x. fst (fold (purple_step_row (fG x) (fM x)) ps (fR x, fA x))) X,
      map (\<lambda>x. snd (fold (purple_step_row (fG x) (fM x)) ps (fR x, fA x))) X)"
proof (induction ps arbitrary: fR fA)
  case Nil
  show ?case by simp
next
  case (Cons p ps)
  show ?case
    by (simp add: purple_step_rows Cons.IH)
qed

lemma char_pass_rows:
  "char_pass guess X (map fG X) c (map fR X) =
     map (\<lambda>x. char_pass_row guess x (fG x) c (fR x)) X"
proof -
  have rep: "replicate (length X) (0::int) = map (\<lambda>x. 0) X"
    by (simp add: map_replicate_const)
  show ?thesis
    unfolding char_pass_def char_pass_row_def Let_def rep
    by (simp add: map2_same fold_purple_step_rows)
qed

lemma fold_char_pass_rows:
  "fold (char_pass guess X (map fG X)) cs (map fR X) =
     map (\<lambda>x. fold (char_pass_row guess x (fG x)) cs (fR x)) X"
  by (induction cs arbitrary: fR) (simp_all add: char_pass_rows)

lemma feedback_result_rows:
  "feedback_result guess X = map (feedback_row guess) X"
proof -
  have rep: "replicate (length X) (replicate 8 (0::u8)) = map (\<lambda>x. replicate 8 0) X"
    by (simp add: map_replicate_const)
  show ?thesis
    unfolding feedback_result_def feedback_row_def Let_def rep
    by (simp add: map2_same fold_char_pass_rows)
qed

lemma compute_feedback_rows:
  "compute_feedback guess X = map (\<lambda>s. encode_row (feedback_row guess s)) X"
  by (simp add: compute_feedback_def encode_row_def feedback_result_rows)

section \<open>The marks of one row in closed form\<close>

lemma length_fold_upd [simp]: "length (fold (\<lambda>p r. r[p := v]) qs row) = length row"
  by (induction qs arbitrary: row) simp_all

lemma nth_fold_upd:
  "q < length row \<Longrightarrow> fold (\<lambda>p r. r[p := v]) qs row ! q = (if q \<in> set qs then v else row ! q)"
  by (induction qs arbitrary: row) (auto simp: nth_list_update)

lemma fold_purple_step_row:
  "a \<le> rem \<Longrightarrow>
   fold (purple_step_row green rem) ps (row, a) =
     (fold (\<lambda>p r. r[p := 1]) (take (nat (rem - a)) (filter (\<lambda>p. \<not> green ! p) ps)) row,
      min rem (a + int (length (filter (\<lambda>p. \<not> green ! p) ps))))"
proof (induction ps arbitrary: row a)
  case Nil
  then show ?case by simp
next
  case (Cons p ps)
  show ?case
  proof (cases "\<not> green ! p \<and> a < rem")
    case True
    then have n: "nat (rem - a) = Suc (nat (rem - (a + 1)))" by arith
    from True have "a + 1 \<le> rem" by simp
    from Cons.IH [OF this] True show ?thesis
      by (simp add: purple_step_row_def n)
  next
    case False
    show ?thesis
    proof (cases "green ! p")
      case True
      with Cons.IH [OF Cons.prems] show ?thesis
        by (simp add: purple_step_row_def)
    next
      case False
      with \<open>\<not> (\<not> green ! p \<and> a < rem)\<close> Cons.prems have "a = rem" by simp
      with Cons.IH [OF Cons.prems] False show ?thesis
        by (simp add: purple_step_row_def)
    qed
  qed
qed

lemma count_true_and_le: "count_true (map2 (\<and>) gs cs) \<le> count_true cs"
proof (induction cs arbitrary: gs)
  case Nil
  show ?case by (simp add: count_true_def)
next
  case (Cons c cs)
  show ?case
  proof (cases gs)
    case Nil
    then show ?thesis by (simp add: count_true_def)
  next
    case (Cons g gs')
    with Cons.IH [of gs'] show ?thesis by (simp add: count_true_def)
  qed
qed


lemma count_true_map: "count_true (map P xs) = int (length (filter P xs))"
  by (induction xs) (simp_all add: count_true_def)

lemma count_true_eq_count_list: "count_true (map (\<lambda>x. x = c) s) = int (count_list s c)"
  by (induction s) (simp_all add: count_true_def)

lemma map2_nth:
  "length xs = length ys \<Longrightarrow> map2 f xs ys = map (\<lambda>i. f (xs ! i) (ys ! i)) [0..<length xs]"
  by (rule nth_equalityI) simp_all

lemma map_nth': "map f xs = map (\<lambda>i. f (xs ! i)) [0..<length xs]"
  by (rule nth_equalityI) simp_all

lemma green_nth:
  "length g = 8 \<Longrightarrow> length s = 8 \<Longrightarrow> p < 8 \<Longrightarrow> map2 (=) g s ! p = (g ! p = s ! p)"
  by simp

lemma remaining_eq:
  assumes "length g = 8" "length s = 8"
  shows "count_true (map (\<lambda>x. x = c) s) - count_true (map2 (\<and>) (map2 (=) g s) (map (\<lambda>x. x = c) s))
         = int (unconsumed g s c)"
proof -
  have "map2 (\<and>) (map2 (=) g s) (map (\<lambda>x. x = c) s)
        = map (\<lambda>p. g ! p = c \<and> g ! p = s ! p) [0..<8]"
    using assms by (intro nth_equalityI) auto
  then have "count_true (map2 (\<and>) (map2 (=) g s) (map (\<lambda>x. x = c) s))
        = int (length (match_positions g s c))"
    by (simp only: count_true_map match_positions_def)
  moreover have "length (match_positions g s c) \<le> count_list s c"
  proof -
    have "int (length (match_positions g s c)) \<le> int (count_list s c)"
      using count_true_and_le [of "map2 (=) g s" "map (\<lambda>x. x = c) s"]
        \<open>count_true (map2 (\<and>) (map2 (=) g s) (map (\<lambda>x. x = c) s)) = int (length (match_positions g s c))\<close>
      by (simp only: count_true_eq_count_list)
    then show ?thesis by simp
  qed
  ultimately show ?thesis
    by (simp add: count_true_eq_count_list unconsumed_def)
qed

lemma nongreen_positions_eq:
  assumes "length g = 8" "length s = 8"
  shows "filter (\<lambda>p. g ! p = c \<and> \<not> map2 (=) g s ! p) [0..<length g]
         = nonmatch_positions g s c"
  unfolding nonmatch_positions_def
  using assms by (intro filter_cong) auto

lemma char_pass_row_eq:
  assumes "length g = 8" "length s = 8"
  shows "char_pass_row g s (map2 (=) g s) c row
         = fold (\<lambda>p r. r[p := 1]) (present_positions g s c) row"
  unfolding char_pass_row_def Let_def remaining_eq [OF assms]
  by (simp add: fold_purple_step_row nongreen_positions_eq [OF assms] present_positions_def)

lemma length_fold_char_pass_row:
  assumes "length g = 8" "length s = 8"
  shows "length (fold (char_pass_row g s (map2 (=) g s)) cs row) = length row"
  by (induction cs arbitrary: row) (simp_all add: char_pass_row_eq [OF assms])

lemma nth_fold_char_pass_row:
  assumes "length g = 8" "length s = 8"
  shows "q < length row \<Longrightarrow>
         fold (char_pass_row g s (map2 (=) g s)) cs row ! q
         = (if \<exists>c\<in>set cs. q \<in> set (present_positions g s c) then 1 else row ! q)"
  by (induction cs arbitrary: row)
     (auto simp: char_pass_row_eq [OF assms] nth_fold_upd)

lemma present_positionsD:
  "q \<in> set (present_positions g s c) \<Longrightarrow> q < 8 \<and> g ! q = c \<and> g ! q \<noteq> s ! q"
  by (auto simp: present_positions_def nonmatch_positions_def dest!: in_set_takeD)

lemma set_np_unique [simp]: "set (np_unique xs) = set xs"
  by (simp add: np_unique_def)

lemma length_feedback_row:
  assumes "length g = 8" "length s = 8"
  shows "length (feedback_row g s) = 8"
  using assms by (simp add: feedback_row_def Let_def length_fold_char_pass_row)

lemma feedback_row_nth:
  assumes "length g = 8" "length s = 8" "q < 8"
  shows "feedback_row g s ! q = mark g s q"
proof -
  have in_g: "g ! q \<in> set g" using assms by simp
  have ex: "(\<exists>c\<in>set g. q \<in> set (present_positions g s c)) = (q \<in> set (present_positions g s (g ! q)))"
    using in_g by (auto dest: present_positionsD)
  show ?thesis
    using assms
    by (auto simp: feedback_row_def Let_def nth_fold_char_pass_row ex mark_def
             dest: present_positionsD)
qed

section \<open>The base-3 encoding\<close>

lemma list8:
  assumes "length xs = 8"
  obtains a b c d e f g h where "xs = [a, b, c, d, e, f, g, h]"
  using assms by (auto simp: numeral_eq_Suc length_Suc_conv)

lemma encode_row_horner: "length row = 8 \<Longrightarrow> encode_row row = horner3 (map uint row)"
  by (erule list8) (simp add: encode_row_def powers_def upt_rec)

lemma horner3_digit:
  "\<forall>x\<in>set xs. 0 \<le> x \<and> x < 3 \<Longrightarrow> p < length xs \<Longrightarrow> pattern_symbol (horner3 xs) p = xs ! p"
proof (induction xs arbitrary: p)
  case Nil
  then show ?case by simp
next
  case (Cons x xs)
  then have x: "0 \<le> x" "x < 3" by simp_all
  show ?case
  proof (cases p)
    case 0
    with x show ?thesis by (simp add: pattern_symbol_def)
  next
    case (Suc q)
    have "(x + 3 * horner3 xs) div (3 * 3 ^ q) = ((x + 3 * horner3 xs) div 3) div 3 ^ q"
      by (rule zdiv_zmult2_eq) simp
    moreover have "(x + 3 * horner3 xs) div 3 = horner3 xs"
      using x by simp
    ultimately have "pattern_symbol (horner3 (x # xs)) p = pattern_symbol (horner3 xs) q"
      by (simp add: pattern_symbol_def Suc)
    with Cons Suc show ?thesis by simp
  qed
qed

lemma uint_mark: "uint (mark g s q) = (if g ! q = s ! q then 2 else if q \<in> set (present_positions g s (g ! q)) then 1 else 0)"
  by (simp add: mark_def)

lemma feedback_row_set:
  assumes "length g = 8" "length s = 8"
  shows "feedback_row g s = map (mark g s) [0..<8]"
  using assms by (intro nth_equalityI) (simp_all add: length_feedback_row feedback_row_nth)

lemma pattern_symbol_feedback:
  assumes "length g = 8" "length s = 8" "p < 8"
  shows "pattern_symbol (encode_row (feedback_row g s)) p = uint (mark g s p)"
proof -
  have "\<forall>x\<in>set (map uint (feedback_row g s)). 0 \<le> x \<and> x < 3"
    by (auto simp: feedback_row_set [OF assms(1,2)] uint_mark)
  from horner3_digit [OF this, of p] assms show ?thesis
    by (simp add: encode_row_horner length_feedback_row feedback_row_nth)
qed

lemma ALL_GREEN_HASH_eq: "ALL_GREEN_HASH = 6560"
  by (simp add: ALL_GREEN_HASH_def upt_rec)

lemma less8_cases: "p < 8 \<Longrightarrow> p = 0 \<or> p = 1 \<or> p = 2 \<or> p = 3 \<or> p = 4 \<or> p = 5 \<or> p = 6 \<or> p = (7::nat)"
  by arith

lemma pattern_symbol_all_green: "p < 8 \<Longrightarrow> pattern_symbol ALL_GREEN_HASH p = 2"
  by (drule less8_cases) (auto simp: pattern_symbol_def ALL_GREEN_HASH_eq)

lemma encode_all_green:
  assumes "length g = 8" "length s = 8"
  shows "encode_row (feedback_row g s) = ALL_GREEN_HASH \<longleftrightarrow> g = s"
proof
  assume h: "encode_row (feedback_row g s) = ALL_GREEN_HASH"
  show "g = s"
  proof (rule nth_equalityI)
    show "length g = length s" using assms by simp
  next
    fix i assume "i < length g"
    then have i: "i < 8" using assms by simp
    have "uint (mark g s i) = 2"
      using pattern_symbol_feedback [OF assms i] pattern_symbol_all_green [OF i] h by simp
    then show "g ! i = s ! i"
      by (simp add: uint_mark split: if_splits)
  qed
next
  assume "g = s"
  moreover have "mark s s = (\<lambda>q. 2)"
    by (simp add: mark_def fun_eq_iff)
  ultimately have "feedback_row g s = replicate 8 2"
    using assms by (simp only: feedback_row_set map_replicate_const) simp
  then show "encode_row (feedback_row g s) = ALL_GREEN_HASH"
    by (simp add: encode_row_def powers_def upt_rec ALL_GREEN_HASH_eq numeral_eq_Suc)
qed

section \<open>Counting positions\<close>

lemma count_list_positions:
  "count_list xs c = length (filter (\<lambda>i. xs ! i = c) [0..<length xs])"
proof -
  have "int (count_list xs c) = count_true (map (\<lambda>x. x = c) xs)"
    by (simp add: count_true_eq_count_list)
  also have "map (\<lambda>x. x = c) xs = map (\<lambda>i. xs ! i = c) [0..<length xs]"
    by (rule map_nth')
  finally show ?thesis by (simp add: count_true_map)
qed

lemma match_positions_le:
  assumes "length g = 8" "length s = 8"
  shows "length (match_positions g s c) \<le> count_list s c"
proof -
  have "match_positions g s c = filter (\<lambda>p. g ! p = s ! p) (filter (\<lambda>p. s ! p = c) [0..<8])"
    unfolding match_positions_def filter_filter by (intro filter_cong) auto
  then have "length (match_positions g s c) \<le> length (filter (\<lambda>p. s ! p = c) [0..<8])"
    by (simp only: length_filter_le)
  with assms show ?thesis by (simp add: count_list_positions)
qed

lemma guess_positions_split:
  assumes "length g = 8"
  shows "count_list g c = length (match_positions g s c) + length (nonmatch_positions g s c)"
proof -
  have m: "match_positions g s c = filter (\<lambda>p. g ! p = s ! p) (filter (\<lambda>p. g ! p = c) [0..<8])"
    unfolding match_positions_def filter_filter by (intro filter_cong) auto
  have n: "nonmatch_positions g s c = filter (\<lambda>p. \<not> g ! p = s ! p) (filter (\<lambda>p. g ! p = c) [0..<8])"
    unfolding nonmatch_positions_def filter_filter by (intro filter_cong) auto
  show ?thesis
    unfolding m n using assms
    by (simp only: sum_length_filter_compl count_list_positions)
qed

lemma length_filter_upt_card:
  "length (filter P [0..<n]) = card {p. p < n \<and> P p}"
proof -
  have "distinct (filter P [0..<n])" by simp
  then have "length (filter P [0..<n]) = card (set (filter P [0..<n]))"
    by (rule distinct_card [symmetric])
  also have "set (filter P [0..<n]) = {p. p < n \<and> P p}" by auto
  finally show ?thesis .
qed

lemma distinct_present_positions: "distinct (present_positions g s c)"
  by (simp add: present_positions_def nonmatch_positions_def)

lemma symbol_cases:
  assumes "length g = 8" "length s = 8" "p < 8"
  shows "pattern_symbol (encode_row (feedback_row g s)) p = 2 \<longleftrightarrow> g ! p = s ! p"
    and "pattern_symbol (encode_row (feedback_row g s)) p = 1 \<longleftrightarrow> p \<in> set (present_positions g s (g ! p))"
    and "pattern_symbol (encode_row (feedback_row g s)) p = 0 \<longleftrightarrow>
           g ! p \<noteq> s ! p \<and> p \<notin> set (present_positions g s (g ! p))"
  using present_positionsD [of p g s "g ! p"]
  by (auto simp: pattern_symbol_feedback [OF assms] uint_mark)

lemma compute_feedback_nth:
  "n < length A \<Longrightarrow> compute_feedback g A ! n = encode_row (feedback_row g (A ! n))"
  by (simp add: compute_feedback_rows)

lemma present_positions_take:
  "present_positions g s c
   = take (min (length (nonmatch_positions g s c)) (unconsumed g s c)) (nonmatch_positions g s c)"
  by (simp add: present_positions_def min_def)

lemma nonmatch_positionsD:
  "p \<in> set (nonmatch_positions g s c) \<Longrightarrow> p < 8 \<and> g ! p = c \<and> g ! p \<noteq> s ! p"
  by (auto simp: nonmatch_positions_def)

lemma take_drop_disjoint:
  "distinct xs \<Longrightarrow> p \<in> set (drop k xs) \<Longrightarrow> p \<notin> set (take k xs)"
  using set_take_disj_set_drop_if_distinct [of xs k k] by auto

lemma symbol_range:
  assumes "length g = 8" "length s = 8" "p < 8"
  shows "pattern_symbol (encode_row (feedback_row g s)) p \<noteq> 0 \<longleftrightarrow>
           g ! p = s ! p \<or> p \<in> set (present_positions g s (g ! p))"
  using symbol_cases(3) [OF assms] by blast

lemma all_same_guess:
  assumes "length s = 8" "count_list s c = 2"
  shows "length (filter (\<lambda>p. pattern_symbol (encode_row (feedback_row (replicate 8 c) s)) p \<noteq> 0) [0..<8]) = 2"
proof -
  let ?g = "replicate 8 c"
  have g: "length ?g = 8" by simp
  have m: "match_positions ?g s c = filter (\<lambda>p. s ! p = c) [0..<8]"
    unfolding match_positions_def by (intro filter_cong) auto
  then have "length (match_positions ?g s c) = 2"
    using assms by (simp only: count_list_positions [symmetric, of s c, unfolded assms(1)])
  then have "unconsumed ?g s c = 0"
    using assms by (simp add: unconsumed_def)
  then have none: "present_positions ?g s c = []"
    by (simp add: present_positions_def)
  have "filter (\<lambda>p. pattern_symbol (encode_row (feedback_row ?g s)) p \<noteq> 0) [0..<8]
        = filter (\<lambda>p. s ! p = c) [0..<8]"
  proof (intro filter_cong refl)
    fix p assume "p \<in> set [0..<8]"
    then have p: "p < 8" by simp
    then have "?g ! p = c" by simp
    with symbol_range [OF g assms(1) p] none
    show "(pattern_symbol (encode_row (feedback_row ?g s)) p \<noteq> 0) = (s ! p = c)"
      by auto
  qed
  with assms show ?thesis
    by (simp only: count_list_positions [symmetric, of s c, unfolded assms(1)])
qed

section \<open>The pattern counts\<close>

lemma length_np_unique: "length (np_unique xs) = card (set xs)"
  by (simp add: np_unique_def length_remdups_card_conv)

lemma count_patterns_card:
  "count_patterns encoded gi
   = int (card (set (compute_feedback (encoded ! gi) encoded) - {ALL_GREEN_HASH}))"
proof -
  let ?H = "set (compute_feedback (encoded ! gi) encoded)"
  show ?thesis
  proof (cases "ALL_GREEN_HASH \<in> ?H")
    case True
    then have "0 < card ?H" by (auto simp: card_gt_0_iff)
    with True show ?thesis
      by (simp add: count_patterns_def Let_def length_np_unique)
  next
    case False
    then show ?thesis
      by (simp add: count_patterns_def Let_def length_np_unique)
  qed
qed

lemma length_num_patterns [simp]: "length (num_patterns encoded) = length encoded"
  by (simp add: num_patterns_def)

lemma length_p_solve2 [simp]: "length (p_solve2 encoded) = length encoded"
  by (simp add: p_solve2_def)

lemma num_patterns_nth:
  "gi < length encoded \<Longrightarrow> num_patterns encoded ! gi = count_patterns encoded gi"
  by (simp add: num_patterns_def)

lemma p_solve2_nth:
  "gi < length encoded \<Longrightarrow>
   p_solve2 encoded ! gi = real_of_int (num_patterns encoded ! gi) / real (length encoded)"
  by (simp add: p_solve2_def)

lemma of_char_u8_inj: "(of_char c :: u8) = of_char d \<Longrightarrow> c = d"
proof -
  assume h: "(of_char c :: u8) = of_char d"
  have u: "unat (of_char x :: u8) = of_char x" for x
  proof -
    have "(of_char x :: u8) = of_nat (of_char x)" by (simp add: of_nat_of_char)
    then have "unat (of_char x :: u8) = (of_char x :: nat) mod 256"
      by (simp only: unat_of_nat) simp
    then show ?thesis by simp
  qed
  from h have "unat (of_char c :: u8) = unat (of_char d :: u8)" by simp
  then show "c = d" by (simp only: u of_char_eq_iff)
qed

lemma encode_string_inj:
  "map of_char s = (map of_char t :: u8 list) \<Longrightarrow> s = t"
  by (rule map_injective [of of_char]) (auto simp: inj_on_def dest: of_char_u8_inj)

lemma encode_solutions_valid:
  assumes "\<forall>s\<in>set solutions. length s = 8"
  shows "encode_solutions solutions = Inr (map (map of_char) solutions)"
  using assms by (auto simp: encode_solutions_def)

lemma count_patterns_bounds:
  assumes len: "\<forall>s\<in>set encoded. length s = 8" and gi: "gi < length encoded"
  shows "count_patterns encoded gi \<le> int (length encoded) - 1"
    and "\<exists>s\<in>set encoded. s \<noteq> encoded ! gi \<Longrightarrow> 1 \<le> count_patterns encoded gi"
proof -
  let ?g = "encoded ! gi"
  let ?f = "\<lambda>s. encode_row (feedback_row ?g s)"
  let ?H = "set (compute_feedback ?g encoded)"
  have H: "?H = ?f ` set encoded" by (simp add: compute_feedback_rows)
  have g: "?g \<in> set encoded" "length ?g = 8" using len gi by simp_all
  have "?f ?g = ALL_GREEN_HASH" using encode_all_green [OF g(2) g(2)] by simp
  with g(1) have green: "ALL_GREEN_HASH \<in> ?H" unfolding H by force
  have "card ?H \<le> length (compute_feedback ?g encoded)" by (rule card_length)
  then have le: "card ?H \<le> length encoded" by (simp add: compute_feedback_rows)
  have c: "count_patterns encoded gi = int (card ?H) - 1"
    using green by (simp add: count_patterns_def Let_def length_np_unique)
  from c le show "count_patterns encoded gi \<le> int (length encoded) - 1" by simp
  assume "\<exists>s\<in>set encoded. s \<noteq> ?g"
  then obtain s where s: "s \<in> set encoded" "s \<noteq> ?g" by blast
  then have "length s = 8" using len by simp
  with s g have "?f s \<noteq> ALL_GREEN_HASH" using encode_all_green [of ?g s] by auto
  moreover have "?f s \<in> ?H" unfolding H using s by blast
  ultimately have "{ALL_GREEN_HASH, ?f s} \<subseteq> ?H" "card {ALL_GREEN_HASH, ?f s} = 2"
    using green by auto
  then have "2 \<le> card ?H" using card_mono [of ?H "{ALL_GREEN_HASH, ?f s}"] by simp
  with c show "1 \<le> count_patterns encoded gi" by simp
qed

text \<open>The counters stay far inside \<open>int32\<close>.\<close>

lemma horner3_bounds:
  "\<forall>x\<in>set xs. 0 \<le> x \<and> x < 3 \<Longrightarrow> 0 \<le> horner3 xs \<and> horner3 xs < 3 ^ length xs"
  by (induction xs) auto

lemma encode_row_range:
  assumes "length g = 8" "length s = 8"
  shows "0 \<le> encode_row (feedback_row g s) \<and> encode_row (feedback_row g s) < 6561"
proof -
  have "\<forall>x\<in>set (map uint (feedback_row g s)). 0 \<le> x \<and> x < 3"
    by (auto simp: feedback_row_set [OF assms] uint_mark)
  from horner3_bounds [OF this] show ?thesis
    by (simp add: encode_row_horner length_feedback_row [OF assms])
qed

lemma count_patterns_range:
  assumes "\<forall>s\<in>set encoded. length s = 8" "gi < length encoded"
  shows "0 \<le> count_patterns encoded gi \<and> count_patterns encoded gi \<le> 6561"
proof -
  let ?H = "set (compute_feedback (encoded ! gi) encoded)"
  have g: "length (encoded ! gi) = 8" using assms by simp
  have "?H \<subseteq> {0..<6561}"
    using assms(1) encode_row_range [OF g] by (auto simp: compute_feedback_rows)
  then have "card ?H \<le> card {0..<6561::int}"
    by (intro card_mono) simp_all
  then have "card (?H - {ALL_GREEN_HASH}) \<le> 6561"
    using card_Diff1_le [of ?H ALL_GREEN_HASH] by simp
  then show ?thesis by (simp add: count_patterns_card)
qed

section \<open>The ranking and the table\<close>




lemma sort_insort_key: "sort (insort_key f x ys) = insort x (sort ys)"
  by (induction ys) (simp_all add: insort_left_comm)

lemma sort_sort_key: "sort (sort_key f xs) = sort xs"
  by (induction xs) (simp_all add: sort_insort_key)



lemma argsort_stable_ok: "is_argsort keys (argsort_stable keys)"
  by (simp add: is_argsort_def argsort_stable_def sort_sort_key)



lemma length_csv_rows [simp]:
  "length (csv_rows argsort solutions encoded) = length (order argsort encoded)"
  by (simp add: csv_rows_def del: upt_Suc)




section \<open>The loader\<close>

lemma entries_eq: "map py_strip (filter (\<lambda>line. py_strip line \<noteq> []) lines) = entries lines"
  by (simp add: entries_def filter_map comp_def)

lemma check_lengths_find:
  "check_lengths xs
   = (case find (\<lambda>e. length e \<noteq> 8) xs of
        Some s \<Rightarrow> Some (AssertionError s (length s)) | None \<Rightarrow> None)"
  by (induction xs) simp_all

lemma load_solutions_find:
  "load_solutions (Text_lines lines)
   = (case find (\<lambda>e. length e \<noteq> 8) (entries lines) of
        Some s \<Rightarrow> Inl (AssertionError s (length s)) | None \<Rightarrow> Inr (entries lines))"
  by (simp add: load_solutions_def entries_eq check_lengths_find split: option.split)

lemma py_strip_blank: "list_all py_isspace l \<Longrightarrow> py_strip l = []"
proof -
  assume "list_all py_isspace l"
  then have h: "dropWhile py_isspace l = []"
    by (simp add: list_all_iff dropWhile_eq_Nil_conv)
  show ?thesis unfolding py_strip_def h by simp
qed

lemma py_strip_pad:
  assumes "list_all py_isspace a" "list_all py_isspace b"
  shows "py_strip (a @ l @ b) = py_strip l"
proof -
  have a: "dropWhile py_isspace (a @ l @ b) = dropWhile py_isspace (l @ b)"
    using assms(1) by (intro dropWhile_append2) (simp add: list_all_iff)
  show ?thesis
  proof (cases "list_all py_isspace l")
    case True
    then have "list_all py_isspace (l @ b)" using assms(2) by simp
    then have "py_strip (a @ l @ b) = []"
      using assms(1) by (intro py_strip_blank) simp
    with True show ?thesis by (simp add: py_strip_blank)
  next
    case False
    then obtain x where "x \<in> set l" "\<not> py_isspace x" by (auto simp: list_all_iff)
    then have "dropWhile py_isspace (l @ b) = dropWhile py_isspace l @ b"
      by (rule dropWhile_append1)
    with a have "dropWhile py_isspace (rev (dropWhile py_isspace (a @ l @ b)))
                 = dropWhile py_isspace (rev b @ rev (dropWhile py_isspace l))"
      by simp
    also have "\<dots> = dropWhile py_isspace (rev (dropWhile py_isspace l))"
      using assms(2) by (intro dropWhile_append2) (simp add: list_all_iff)
    finally show ?thesis by (simp add: py_strip_def)
  qed
qed

lemma data_path_suffix: "\<exists>pre. data_path w = pre @ ''NerdleClassicRestricted.txt''"
  by (auto simp: data_path_def path_join_def)

section \<open>The feedback of the specification and of the code agree\<close>

lemma spec_presence_walk_eq:
  "spec_presence_walk ps r marks
   = fold (\<lambda>p m. m[p := Present_elsewhere]) (take r (filter (\<lambda>p. marks ! p \<noteq> Match) ps)) marks"
proof (induction ps arbitrary: r marks)
  case Nil
  show ?case by simp
next
  case (Cons p ps)
  show ?case
  proof (cases "marks ! p = Match")
    case True
    then show ?thesis by (simp add: Cons.IH)
  next
    case False
    show ?thesis
    proof (cases r)
      case 0
      with False show ?thesis by (simp add: Cons.IH)
    next
      case (Suc r')
      have same: "(marks[p := Present_elsewhere] ! q \<noteq> Match) = (marks ! q \<noteq> Match)" for q
      proof (cases "p < length marks")
        case True
        with False show ?thesis by (auto simp: nth_list_update)
      next
        case beyond: False
        then have "marks[p := Present_elsewhere] = marks"
          by (intro list_update_beyond) simp
        then show ?thesis by simp
      qed
      from False Suc show ?thesis
        by (simp add: Cons.IH same)
    qed
  qed
qed

lemma marks_agree_match_pass: "marks_agree g s (spec_match_pass g s)"
  by (simp add: marks_agree_def spec_match_pass_def del: upt.simps)

lemma spec_presence_pass_eq:
  assumes "marks_agree g s marks"
  shows "spec_presence_pass g s c marks
         = fold (\<lambda>p m. m[p := Present_elsewhere]) (present_positions g s c) marks"
proof -
  have m: "filter (\<lambda>i. s ! i = c \<and> marks ! i = Match) [0..<8] = match_positions g s c"
    unfolding match_positions_def using assms
    by (intro filter_cong) (auto simp: marks_agree_def)
  have n: "filter (\<lambda>p. marks ! p \<noteq> Match) (filter (\<lambda>p. g ! p = c) [0..<8]) = nonmatch_positions g s c"
    unfolding nonmatch_positions_def filter_filter using assms
    by (intro filter_cong) (auto simp: marks_agree_def)
  show ?thesis
    unfolding spec_presence_pass_def spec_presence_walk_eq n
    by (simp add: spec_remaining_def m present_positions_def unconsumed_def)
qed

lemma marks_agree_fold:
  assumes "marks_agree g s marks"
  shows "marks_agree g s (fold (\<lambda>p m. m[p := Present_elsewhere]) (present_positions g s c) marks)"
  using assms present_positionsD [of _ g s c]
  by (auto simp: marks_agree_def nth_fold_upd)

lemma fold_spec_presence_pass:
  assumes "marks_agree g s marks" "q < 8"
  shows "marks_agree g s (fold (spec_presence_pass g s) cs marks)
       \<and> fold (spec_presence_pass g s) cs marks ! q
         = (if \<exists>c\<in>set cs. q \<in> set (present_positions g s c) then Present_elsewhere else marks ! q)"
  using assms(1)
proof (induction cs arbitrary: marks)
  case Nil
  then show ?case by simp
next
  case (Cons c cs)
  let ?m = "fold (\<lambda>p m. m[p := Present_elsewhere]) (present_positions g s c) marks"
  have a: "marks_agree g s ?m" by (rule marks_agree_fold [OF Cons.prems])
  have q: "q < length marks" using Cons.prems assms(2) by (simp add: marks_agree_def)
  from Cons.IH [OF a] q show ?case
    by (auto simp: spec_presence_pass_eq [OF Cons.prems] nth_fold_upd)
qed

lemma spec_marks_nth:
  assumes "length g = 8" "q < 8"
  shows "symbol_value (fold (spec_presence_pass g s) (remdups g) (spec_match_pass g s) ! q)
         = uint (mark g s q)"
proof -
  have in_g: "g ! q \<in> set g" using assms by simp
  have ex: "(\<exists>c\<in>set g. q \<in> set (present_positions g s c)) = (q \<in> set (present_positions g s (g ! q)))"
    using in_g by (auto dest: present_positionsD)
  have "spec_match_pass g s ! q = (if g ! q = s ! q then Match else Absent)"
    using assms(2) by (simp add: spec_match_pass_def del: upt.simps)
  with fold_spec_presence_pass [OF marks_agree_match_pass assms(2), of g s "remdups g"]
  show ?thesis
    by (auto simp: ex uint_mark dest: present_positionsD)
qed

lemma encode_row_sum:
  "length row = 8 \<Longrightarrow> encode_row row = (\<Sum>i\<leftarrow>[0..<8]. uint (row ! i) * 3 ^ i)"
  by (erule list8) (simp add: encode_row_def powers_def upt_rec)

lemma spec_feedback_refines:
  assumes "length g = 8" "length s = 8"
  shows "encode_row (feedback_row g s) = spec_feedback g s"
proof -
  have "map (\<lambda>i. uint (feedback_row g s ! i) * 3 ^ i) [0..<8]
        = map (\<lambda>i. symbol_value (fold (spec_presence_pass g s) (remdups g) (spec_match_pass g s) ! i) * 3 ^ i) [0..<8]"
    using assms by (intro map_cong refl) (simp add: feedback_row_nth spec_marks_nth)
  then show ?thesis
    unfolding spec_feedback_def spec_encode_def
      encode_row_sum [OF length_feedback_row [OF assms]]
    by (simp only:)
qed

section \<open>Claims about the feedback of one guess\<close>

text \<open>
  In the theorems of this section \<open>g\<close> is the encoded guess, \<open>A\<close> the array of
  encoded secrets and \<open>n\<close> a row of it; guess and secret have the 8 cells that
  \<open>encode_solutions\<close> gives every row.
\<close>

text \<open>
  Claim C1. For an 8-character guess and secret, the hash that
  \<open>compute_feedback\<close> returns for the secret is the all-match value
  \<open>ALL_GREEN_HASH\<close>, which is 6560, exactly when the guess equals the secret.
\<close>

theorem all_match_iff_equal:
  assumes "length g = 8" and "n < length A" and "length (A ! n) = 8"
  shows "(compute_feedback g A ! n = ALL_GREEN_HASH \<longleftrightarrow> g = A ! n) \<and> ALL_GREEN_HASH = 6560"
proof
  show "compute_feedback g A ! n = ALL_GREEN_HASH \<longleftrightarrow> g = A ! n"
    unfolding compute_feedback_nth [OF assms(2)]
    by (rule encode_all_green [OF assms(1,3)])
  show "ALL_GREEN_HASH = 6560"
    by (rule ALL_GREEN_HASH_eq)
qed

text \<open>An instance: \<^verbatim>\<open>12+34=46\<close> against itself and against \<^verbatim>\<open>21+43=64\<close>.\<close>

theorem all_match_iff_equal_witness:
  "compute_feedback (map of_char ''12+34=46'') [map of_char ''12+34=46'', map of_char ''21+43=64''] ! 0
     = ALL_GREEN_HASH
   \<and> compute_feedback (map of_char ''12+34=46'') [map of_char ''12+34=46'', map of_char ''21+43=64''] ! 1
     \<noteq> ALL_GREEN_HASH"
proof -
  let ?g = "map of_char ''12+34=46'' :: u8 list"
  let ?s = "map of_char ''21+43=64'' :: u8 list"
  have ne: "?g \<noteq> ?s" by simp
  have "compute_feedback ?g [?g, ?s] ! 0 = ALL_GREEN_HASH \<longleftrightarrow> ?g = [?g, ?s] ! 0"
    by (rule all_match_iff_equal [THEN conjunct1]) simp_all
  moreover have "compute_feedback ?g [?g, ?s] ! 1 = ALL_GREEN_HASH \<longleftrightarrow> ?g = [?g, ?s] ! 1"
    by (rule all_match_iff_equal [THEN conjunct1]) simp_all
  ultimately show ?thesis using ne by simp
qed

text \<open>
  Claim C2. For a character \<open>c\<close>, the positions of \<open>c\<close> in the guess that the
  hash marks present-elsewhere (symbol 1) are exactly the first \<open>k\<close> non-match
  positions of \<open>c\<close>, left to right, where \<open>k\<close> is the smaller of the number of
  those positions and the number of occurrences of \<open>c\<close> in the secret that no
  match consumes; the later non-match positions are marked absent (symbol 0).
  A guess made of eight \<open>c\<close> against a secret with exactly two \<open>c\<close> has exactly
  two marks that are not absent.
\<close>

theorem present_elsewhere_marks:
  assumes "length g = 8" and "n < length A" and "length (A ! n) = 8"
  shows "let s = A ! n; h = compute_feedback g A ! n;
             nm = nonmatch_positions g s c;
             k = min (length nm) (unconsumed g s c)
         in (\<forall>p<8. g ! p = c \<longrightarrow> (pattern_symbol h p = 1 \<longleftrightarrow> p \<in> set (take k nm)))
          \<and> (\<forall>p\<in>set (drop k nm). pattern_symbol h p = 0)
          \<and> (g = replicate 8 c \<and> count_list s c = 2 \<longrightarrow>
               length (filter (\<lambda>p. pattern_symbol h p \<noteq> 0) [0..<8]) = 2)"
proof -
  let ?s = "A ! n"
  let ?h = "encode_row (feedback_row g ?s)"
  let ?nm = "nonmatch_positions g ?s c"
  let ?k = "min (length ?nm) (unconsumed g ?s c)"
  have pp: "present_positions g ?s c = take ?k ?nm"
    by (rule present_positions_take)
  have a: "\<forall>p<8. g ! p = c \<longrightarrow> (pattern_symbol ?h p = 1 \<longleftrightarrow> p \<in> set (take ?k ?nm))"
    using symbol_cases(2) [OF assms(1,3)] pp by auto
  have b: "\<forall>p\<in>set (drop ?k ?nm). pattern_symbol ?h p = 0"
  proof
    fix p assume p: "p \<in> set (drop ?k ?nm)"
    then have "p \<in> set ?nm" by (rule in_set_dropD)
    then have q: "p < 8" "g ! p = c" "g ! p \<noteq> ?s ! p"
      by (auto dest: nonmatch_positionsD)
    have "distinct ?nm" by (simp add: nonmatch_positions_def)
    from take_drop_disjoint [OF this p] have "p \<notin> set (present_positions g ?s (g ! p))"
      using q pp by simp
    with symbol_cases(3) [OF assms(1,3) q(1)] q show "pattern_symbol ?h p = 0"
      by simp
  qed
  have c: "g = replicate 8 c \<and> count_list ?s c = 2 \<longrightarrow>
             length (filter (\<lambda>p. pattern_symbol ?h p \<noteq> 0) [0..<8]) = 2"
    using all_same_guess [OF assms(3)] by auto
  from a b c show ?thesis
    unfolding Let_def compute_feedback_nth [OF assms(2)] by blast
qed

text \<open>
  An instance: in \<^verbatim>\<open>10+11=21\<close> against \<^verbatim>\<open>21+10=31\<close> the character \<^verbatim>\<open>1\<close>
  matches at positions 3 and 7, one \<^verbatim>\<open>1\<close> of the secret is left, position 0
  takes it and position 4 is absent; and \<^verbatim>\<open>11111111\<close> against
  \<^verbatim>\<open>21+10=32\<close>.
\<close>

theorem present_elsewhere_marks_witness:
  "pattern_symbol (compute_feedback (map of_char ''10+11=21'') [map of_char ''21+10=31''] ! 0) 0 = 1
   \<and> pattern_symbol (compute_feedback (map of_char ''10+11=21'') [map of_char ''21+10=31''] ! 0) 4 = 0
   \<and> length (filter (\<lambda>p. pattern_symbol
         (compute_feedback (map of_char ''11111111'') [map of_char ''21+10=32''] ! 0) p \<noteq> 0) [0..<8]) = 2"
proof -
  let ?g = "map of_char ''10+11=21'' :: u8 list"
  let ?s = "map of_char ''21+10=31'' :: u8 list"
  have nm: "nonmatch_positions [49, 48, 43, 49, 49, 61, 50, 49] [50, 49, 43, 49, 48, 61, 51, 49] 49 = [0, 4]"
    by (simp add: nonmatch_positions_def upt_rec)
  have un: "unconsumed [49, 48, 43, 49, 49, 61, 50, 49] [50, 49, 43, 49, 48, 61, 51, 49] 49 = 1"
    by (simp add: unconsumed_def match_positions_def upt_rec)
  note t = present_elsewhere_marks [of ?g 0 "[?s]" 49, unfolded Let_def]
  have t': "(\<forall>p<8. ?g ! p = 49 \<longrightarrow> (pattern_symbol (compute_feedback ?g [?s] ! 0) p = 1 \<longleftrightarrow> p \<in> set (take 1 [0, 4])))
          \<and> (\<forall>p\<in>set (drop 1 [0, 4::nat]). pattern_symbol (compute_feedback ?g [?s] ! 0) p = 0)"
    using t by (simp add: nm un)
  then have a: "pattern_symbol (compute_feedback ?g [?s] ! 0) 0 = 1"
    by simp
  from t' have b: "pattern_symbol (compute_feedback ?g [?s] ! 0) 4 = 0"
    by simp
  let ?g1 = "map of_char ''11111111'' :: u8 list"
  let ?s1 = "map of_char ''21+10=32'' :: u8 list"
  have c: "length (filter (\<lambda>p. pattern_symbol (compute_feedback ?g1 [?s1] ! 0) p \<noteq> 0) [0..<8]) = 2"
  proof -
    have r: "replicate 8 (49 :: u8) = [49, 49, 49, 49, 49, 49, 49, 49]"
      by (simp add: numeral_eq_Suc)
    show ?thesis
      using present_elsewhere_marks [of ?g1 0 "[?s1]" 49, unfolded Let_def]
      by (simp add: r)
  qed
  from a b c show ?thesis by blast
qed

text \<open>
  Claim C3. For a character \<open>c\<close>, the number of positions of \<open>c\<close> in the guess
  marked match plus the number marked present-elsewhere is at most the number
  of occurrences of \<open>c\<close> in the guess, and at most that in the secret.
\<close>

theorem marks_bounded_by_occurrences:
  assumes "length g = 8" and "n < length A" and "length (A ! n) = 8"
  shows "let s = A ! n; h = compute_feedback g A ! n;
             matched = length (filter (\<lambda>p. g ! p = c \<and> pattern_symbol h p = 2) [0..<8]);
             present = length (filter (\<lambda>p. g ! p = c \<and> pattern_symbol h p = 1) [0..<8])
         in matched + present \<le> count_list g c \<and> matched + present \<le> count_list s c"
proof -
  let ?s = "A ! n"
  let ?h = "encode_row (feedback_row g ?s)"
  have m: "filter (\<lambda>p. g ! p = c \<and> pattern_symbol ?h p = 2) [0..<8] = match_positions g ?s c"
    unfolding match_positions_def
    using symbol_cases(1) [OF assms(1,3)] by (intro filter_cong) auto
  have "{p. p < 8 \<and> g ! p = c \<and> pattern_symbol ?h p = 1} = set (present_positions g ?s c)"
    using symbol_cases(2) [OF assms(1,3)] by (auto dest: present_positionsD)
  then have "length (filter (\<lambda>p. g ! p = c \<and> pattern_symbol ?h p = 1) [0..<8])
             = card (set (present_positions g ?s c))"
    by (simp only: length_filter_upt_card)
  also have "\<dots> = length (present_positions g ?s c)"
    by (rule distinct_card [OF distinct_present_positions])
  finally have pr: "length (filter (\<lambda>p. g ! p = c \<and> pattern_symbol ?h p = 1) [0..<8])
             = min (unconsumed g ?s c) (length (nonmatch_positions g ?s c))"
    by (simp add: present_positions_def min.commute)
  have g: "count_list g c = length (match_positions g ?s c) + length (nonmatch_positions g ?s c)"
    by (rule guess_positions_split [OF assms(1)])
  have s: "length (match_positions g ?s c) + unconsumed g ?s c = count_list ?s c"
    using match_positions_le [OF assms(1,3), of c] by (simp add: unconsumed_def)
  show ?thesis
    unfolding Let_def compute_feedback_nth [OF assms(2)] m pr
    using g s by simp
qed

text \<open>An instance: the character \<^verbatim>\<open>1\<close>, three times in the secret \<^verbatim>\<open>21+10=31\<close>.\<close>

theorem marks_bounded_by_occurrences_witness:
  "length (filter (\<lambda>p. map of_char ''10+11=21'' ! p = (49 :: u8) \<and>
       pattern_symbol (compute_feedback (map of_char ''10+11=21'') [map of_char ''21+10=31''] ! 0) p = 2) [0..<8])
   + length (filter (\<lambda>p. map of_char ''10+11=21'' ! p = (49 :: u8) \<and>
       pattern_symbol (compute_feedback (map of_char ''10+11=21'') [map of_char ''21+10=31''] ! 0) p = 1) [0..<8])
   \<le> 3"
  using marks_bounded_by_occurrences [of "map of_char ''10+11=21''" 0 "[map of_char ''21+10=31'']" 49, unfolded Let_def]
  by simp

text \<open>
  Claim C9. The batched computation is pointwise: equal rows of two secret
  arrays get equal entries, whatever else the arrays hold; the result is the
  map over the rows of the computation on a single secret; and, on the
  8-cell rows it is made for, it is the map of the per-pair feedback that the
  specification describes.
\<close>

theorem compute_feedback_pointwise:
  "(\<forall>i j. i < length A \<and> j < length B \<and> A ! i = B ! j \<longrightarrow>
       compute_feedback g A ! i = compute_feedback g B ! j)
   \<and> compute_feedback g A = map (\<lambda>s. compute_feedback g [s] ! 0) A
   \<and> (length g = 8 \<and> (\<forall>s\<in>set A. length s = 8) \<longrightarrow>
       compute_feedback g A = map (spec_feedback g) A)"
proof (intro conjI allI impI)
  fix i j
  assume "i < length A \<and> j < length B \<and> A ! i = B ! j"
  then show "compute_feedback g A ! i = compute_feedback g B ! j"
    by (simp add: compute_feedback_rows)
next
  show "compute_feedback g A = map (\<lambda>s. compute_feedback g [s] ! 0) A"
    by (simp add: compute_feedback_rows)
next
  assume "length g = 8 \<and> (\<forall>s\<in>set A. length s = 8)"
  then show "compute_feedback g A = map (spec_feedback g) A"
    by (simp add: compute_feedback_rows spec_feedback_refines)
qed

text \<open>
  An instance: \<^verbatim>\<open>21+10=31\<close> as second row of one array and only row of
  another, and the specification's feedback computed on it.
\<close>

theorem compute_feedback_pointwise_witness:
  "compute_feedback (map of_char ''10+11=21'') [map of_char ''12+34=46'', map of_char ''21+10=31''] ! 1
     = compute_feedback (map of_char ''10+11=21'') [map of_char ''21+10=31''] ! 0
   \<and> compute_feedback (map of_char ''10+11=21'') [map of_char ''12+34=46'', map of_char ''21+10=31'']
     = map (spec_feedback (map of_char ''10+11=21'')) [map of_char ''12+34=46'', map of_char ''21+10=31'']
   \<and> spec_feedback (map of_char ''10+11=21'') (map of_char ''21+10=31'') = 5665"
proof -
  let ?g = "map of_char ''10+11=21'' :: u8 list"
  let ?A = "[map of_char ''12+34=46'', map of_char ''21+10=31''] :: u8 list list"
  let ?B = "[map of_char ''21+10=31''] :: u8 list list"
  note t = compute_feedback_pointwise [of ?A ?B ?g]
  have "1 < length ?A \<and> 0 < length ?B \<and> ?A ! 1 = ?B ! 0" by simp
  with t have a: "compute_feedback ?g ?A ! 1 = compute_feedback ?g ?B ! 0" by blast
  have "length ?g = 8 \<and> (\<forall>s\<in>set ?A. length s = 8)" by simp
  with t have b: "compute_feedback ?g ?A = map (spec_feedback ?g) ?A" by blast
  have c: "spec_feedback ?g (map of_char ''21+10=31'') = 5665"
    by code_simp
  from a b c show ?thesis by blast
qed

section \<open>Claims about the analysis\<close>

text \<open>
  Claim C4. For every guess of the candidate list, \<open>num_patterns\<close> holds the
  number of distinct hashes that the guess produces against all \<open>N\<close>
  candidates, the all-match hash excluded, and \<open>p_solve2\<close> holds that count
  divided by \<open>N\<close>.
\<close>

theorem num_patterns_counts_distinct:
  assumes "gi < length encoded"
  shows "num_patterns encoded ! gi
           = int (card (set (compute_feedback (encoded ! gi) encoded) - {ALL_GREEN_HASH}))
       \<and> p_solve2 encoded ! gi = real_of_int (num_patterns encoded ! gi) / real (length encoded)"
  using assms by (simp add: num_patterns_nth p_solve2_nth count_patterns_card)

text \<open>
  An instance: four words; the fourth tells the other three apart, each of the
  others sees two of them alike.
\<close>

theorem num_patterns_counts_distinct_witness:
  "num_patterns (map (map of_char) [''00000000'', ''11111111'', ''22222222'', ''01234567'']) ! 3
     = int (card (set (compute_feedback
          (map (map of_char) [''00000000'', ''11111111'', ''22222222'', ''01234567''] ! 3)
          (map (map of_char) [''00000000'', ''11111111'', ''22222222'', ''01234567'']))
        - {ALL_GREEN_HASH}))
   \<and> p_solve2 (map (map of_char) [''00000000'', ''11111111'', ''22222222'', ''01234567'']) ! 3
     = real_of_int (num_patterns
          (map (map of_char) [''00000000'', ''11111111'', ''22222222'', ''01234567'']) ! 3) / real 4
   \<and> num_patterns (map (map of_char) [''00000000'', ''11111111'', ''22222222'', ''01234567''])
     = [2, 2, 2, 3]"
proof -
  let ?E = "map (map of_char) [''00000000'', ''11111111'', ''22222222'', ''01234567''] :: u8 list list"
  have v: "num_patterns ?E = [2, 2, 2, 3]"
    by code_simp
  have n: "3 < length ?E" by simp
  have l: "length ?E = 4" by simp
  from num_patterns_counts_distinct [OF n] v show ?thesis
    unfolding l by blast
qed

text \<open>
  Claim C5, as stated, asks for a count in \<open>[1, N - 1]\<close> and a probability
  strictly between 0 and 1 for every guess. A list of one word (or of copies
  of one word) gives the count 0 and the probability 0: the only hash is the
  all-match one.
\<close>

theorem num_patterns_in_range_counterexample:
  "num_patterns [map of_char ''12+34=46''] ! 0 = 0
   \<and> \<not> (1 \<le> num_patterns [map of_char ''12+34=46''] ! 0
        \<and> num_patterns [map of_char ''12+34=46''] ! 0 \<le> int (length [''12+34=46'']) - 1
        \<and> 0 < p_solve2 [map of_char ''12+34=46''] ! 0
        \<and> p_solve2 [map of_char ''12+34=46''] ! 0 < 1)"
proof -
  have "num_patterns [map of_char ''12+34=46''] ! 0 = 0"
    by code_simp
  then show ?thesis by simp
qed

text \<open>
  Claim C5, amended. For a list of 8-character words and a guess of the list
  such that the list has a word different from the guess, the count is in
  \<open>[1, N - 1]\<close> and the probability is strictly between 0 and 1.
\<close>

theorem num_patterns_in_range:
  assumes "\<forall>s\<in>set solutions. length s = 8"
    and "encode_solutions solutions = Inr encoded"
    and "gi < length solutions"
    and "\<exists>s\<in>set solutions. s \<noteq> solutions ! gi"
  shows "1 \<le> num_patterns encoded ! gi
       \<and> num_patterns encoded ! gi \<le> int (length solutions) - 1
       \<and> 0 < p_solve2 encoded ! gi \<and> p_solve2 encoded ! gi < 1"
proof -
  have enc: "encoded = map (map of_char) solutions"
    using assms(1,2) by (simp add: encode_solutions_valid)
  have len: "\<forall>s\<in>set encoded. length s = 8" using assms(1) by (simp add: enc)
  have gi: "gi < length encoded" using assms(3) by (simp add: enc)
  from assms(4) obtain s where s: "s \<in> set solutions" "s \<noteq> solutions ! gi" by blast
  then have "map of_char s \<in> set encoded" "map of_char s \<noteq> encoded ! gi"
    using assms(3) by (auto simp: enc dest: encode_string_inj)
  then have ex: "\<exists>s\<in>set encoded. s \<noteq> encoded ! gi" by blast
  have lo: "1 \<le> num_patterns encoded ! gi"
    using count_patterns_bounds(2) [OF len gi ex] gi by (simp add: num_patterns_nth)
  have hi: "num_patterns encoded ! gi \<le> int (length encoded) - 1"
    using count_patterns_bounds(1) [OF len gi] gi by (simp add: num_patterns_nth)
  have N: "0 < real (length encoded)" using gi by (cases encoded) simp_all
  have p: "p_solve2 encoded ! gi = real_of_int (num_patterns encoded ! gi) / real (length encoded)"
    by (rule p_solve2_nth [OF gi])
  have "0 < real_of_int (num_patterns encoded ! gi)" using lo by simp
  then have p0: "0 < p_solve2 encoded ! gi"
    unfolding p using N by (rule divide_pos_pos)
  have "real_of_int (num_patterns encoded ! gi) < real (length encoded)"
    using hi by linarith
  then have p1: "p_solve2 encoded ! gi < 1"
    unfolding p using N by (simp only: divide_less_eq_1_pos)
  have "length encoded = length solutions" by (simp add: enc)
  with lo hi p0 p1 show ?thesis by simp
qed

text \<open>An instance: the first of four distinct words.\<close>

theorem num_patterns_in_range_witness:
  "1 \<le> num_patterns (map (map of_char) [''00000000'', ''11111111'', ''22222222'', ''01234567'']) ! 0
   \<and> num_patterns (map (map of_char) [''00000000'', ''11111111'', ''22222222'', ''01234567'']) ! 0 \<le> 3
   \<and> 0 < p_solve2 (map (map of_char) [''00000000'', ''11111111'', ''22222222'', ''01234567'']) ! 0
   \<and> p_solve2 (map (map of_char) [''00000000'', ''11111111'', ''22222222'', ''01234567'']) ! 0 < 1"
proof -
  let ?S = "[''00000000'', ''11111111'', ''22222222'', ''01234567'']"
  have a: "\<forall>s\<in>set ?S. length s = 8" by simp
  have b: "encode_solutions ?S = Inr (map (map of_char) ?S)"
    by (rule encode_solutions_valid [OF a])
  have c: "0 < length ?S" by simp
  have d: "\<exists>s\<in>set ?S. s \<noteq> ?S ! 0" by simp
  from num_patterns_in_range [OF a b c d] show ?thesis by simp
qed



section \<open>Claims about the loader and the run\<close>

text \<open>
  Claim C7. On a readable file \<open>load_solutions\<close> fails, with the assertion
  that names the offending record, exactly when some entry has a length other
  than 8, and it fails in no other way; otherwise it returns the entries, in
  the order of the file. (An entry is a line as the loader reads it: stripped,
  and not blank; see C10.)
\<close>

theorem load_solutions_checks_lengths:
  "((\<exists>s n. load_solutions (Text_lines lines) = Inl (AssertionError s n))
      \<longleftrightarrow> (\<exists>e\<in>set (entries lines). length e \<noteq> 8))
   \<and> (\<forall>e. load_solutions (Text_lines lines) = Inl e \<longrightarrow>
         (\<exists>s\<in>set (entries lines). length s \<noteq> 8 \<and> e = AssertionError s (length s)))
   \<and> ((\<forall>e\<in>set (entries lines). length e = 8) \<longrightarrow>
         load_solutions (Text_lines lines) = Inr (entries lines))"
proof (cases "find (\<lambda>e. length e \<noteq> 8) (entries lines)")
  case None
  then have all: "\<forall>e\<in>set (entries lines). length e = 8"
    by (auto simp: find_None_iff)
  have "load_solutions (Text_lines lines) = Inr (entries lines)"
    by (simp add: load_solutions_find None)
  with all show ?thesis by auto
next
  case (Some s)
  then have s: "s \<in> set (entries lines)" "length s \<noteq> 8"
    by (auto simp: find_Some_iff)
  have "load_solutions (Text_lines lines) = Inl (AssertionError s (length s))"
    by (simp add: load_solutions_find Some)
  with s show ?thesis by auto
qed

text \<open>An instance: a file with a five-character record, and one without.\<close>

theorem load_solutions_checks_lengths_witness:
  "load_solutions (Text_lines [''12+34=46\<newline>'', ''1+2=3\<newline>'', ''21+43=64\<newline>''])
     = Inl (AssertionError ''1+2=3'' 5)
   \<and> load_solutions (Text_lines [''12+34=46\<newline>'', ''21+43=64\<newline>''])
     = Inr [''12+34=46'', ''21+43=64'']"
proof -
  let ?bad = "[''12+34=46\<newline>'', ''1+2=3\<newline>'', ''21+43=64\<newline>'']"
  let ?good = "[''12+34=46\<newline>'', ''21+43=64\<newline>'']"
  have eb: "entries ?bad = [''12+34=46'', ''1+2=3'', ''21+43=64'']"
    by (simp add: entries_def py_strip_def py_isspace_def)
  have eg: "entries ?good = [''12+34=46'', ''21+43=64'']"
    by (simp add: entries_def py_strip_def py_isspace_def)
  have "\<exists>s\<in>set (entries ?bad). length s \<noteq> 8 \<and>
          load_solutions (Text_lines ?bad) = Inl (AssertionError s (length s))"
  proof -
    have "\<exists>e\<in>set (entries ?bad). length e \<noteq> 8" by (simp add: eb)
    with load_solutions_checks_lengths [of ?bad]
    obtain s n where "load_solutions (Text_lines ?bad) = Inl (AssertionError s n)" by blast
    with load_solutions_checks_lengths [of ?bad] show ?thesis by auto
  qed
  then have b: "load_solutions (Text_lines ?bad) = Inl (AssertionError ''1+2=3'' 5)"
    by (auto simp: eb)
  have "\<forall>e\<in>set (entries ?good). length e = 8" by (simp add: eg)
  with load_solutions_checks_lengths [of ?good]
  have "load_solutions (Text_lines ?good) = Inr (entries ?good)" by blast
  with b show ?thesis by (simp only: eg simp_thms)
qed

text \<open>
  Claim C10. \<open>load_solutions\<close> skips a line that is empty or all whitespace,
  and strips leading and trailing whitespace from a line before it checks the
  length: a blank line is no length error, and a line is accepted or refused
  by the length of what remains after stripping.
\<close>

theorem load_solutions_strips_and_skips:
  "(list_all py_isspace blank \<longrightarrow>
      load_solutions (Text_lines (xs @ blank # ys)) = load_solutions (Text_lines (xs @ ys)))
   \<and> (list_all py_isspace a \<and> list_all py_isspace b \<longrightarrow>
      load_solutions (Text_lines (xs @ (a @ l @ b) # ys)) = load_solutions (Text_lines (xs @ l # ys)))
   \<and> (py_strip l \<noteq> [] \<and> length (py_strip l) \<noteq> 8 \<longrightarrow>
      load_solutions (Text_lines [l]) = Inl (AssertionError (py_strip l) (length (py_strip l))))
   \<and> (length (py_strip l) = 8 \<longrightarrow> load_solutions (Text_lines [l]) = Inr [py_strip l])"
proof (intro conjI impI)
  assume "list_all py_isspace blank"
  then have "py_strip blank = []" by (rule py_strip_blank)
  then show "load_solutions (Text_lines (xs @ blank # ys)) = load_solutions (Text_lines (xs @ ys))"
    by (simp add: load_solutions_def)
next
  assume "list_all py_isspace a \<and> list_all py_isspace b"
  then have "py_strip (a @ l @ b) = py_strip l" by (simp add: py_strip_pad)
  then show "load_solutions (Text_lines (xs @ (a @ l @ b) # ys)) = load_solutions (Text_lines (xs @ l # ys))"
    by (simp add: load_solutions_def)
next
  assume "py_strip l \<noteq> [] \<and> length (py_strip l) \<noteq> 8"
  then show "load_solutions (Text_lines [l]) = Inl (AssertionError (py_strip l) (length (py_strip l)))"
    by (simp add: load_solutions_def)
next
  assume "length (py_strip l) = 8"
  then show "load_solutions (Text_lines [l]) = Inr [py_strip l]"
    by (auto simp: load_solutions_def)
qed

text \<open>
  An instance: a blank line between two words, a word with spaces around it,
  and the five-character word \<^verbatim>\<open>1+2=3\<close> padded with spaces to eight.
\<close>

theorem load_solutions_strips_and_skips_witness:
  "load_solutions (Text_lines [''12+34=46\<newline>'', ''  \<newline>'', ''21+43=64\<newline>''])
     = load_solutions (Text_lines [''12+34=46\<newline>'', ''21+43=64\<newline>''])
   \<and> load_solutions (Text_lines [''  12+34=46 \<newline>'']) = load_solutions (Text_lines [''12+34=46''])
   \<and> load_solutions (Text_lines [''1+2=3   '']) = Inl (AssertionError ''1+2=3'' 5)
   \<and> load_solutions (Text_lines [''  12+34=46 \<newline>'']) = Inr [''12+34=46'']"
proof -
  have sp: "py_isspace CHR '' ''" "py_isspace CHR ''\<newline>''"
    by (simp_all add: py_isspace_def)
  have 1: "load_solutions (Text_lines [''12+34=46\<newline>'', ''  \<newline>'', ''21+43=64\<newline>''])
           = load_solutions (Text_lines [''12+34=46\<newline>'', ''21+43=64\<newline>''])"
    using load_solutions_strips_and_skips
      [where blank = "''  \<newline>''" and xs = "[''12+34=46\<newline>'']" and ys = "[''21+43=64\<newline>'']"]
    by (simp add: sp)
  have 2: "load_solutions (Text_lines [''  12+34=46 \<newline>'']) = load_solutions (Text_lines [''12+34=46''])"
    using load_solutions_strips_and_skips
      [where a = "''  ''" and b = "'' \<newline>''" and l = "''12+34=46''" and xs = "[]" and ys = "[]"]
    by (simp add: sp)
  have s3: "py_strip ''1+2=3   '' = ''1+2=3''"
    by (simp add: py_strip_def py_isspace_def)
  have 3: "load_solutions (Text_lines [''1+2=3   '']) = Inl (AssertionError ''1+2=3'' 5)"
    using load_solutions_strips_and_skips [where l = "''1+2=3   ''"]
    by (simp add: s3)
  have s4: "py_strip ''  12+34=46 \<newline>'' = ''12+34=46''"
    by (simp add: py_strip_def py_isspace_def)
  have 4: "load_solutions (Text_lines [''  12+34=46 \<newline>'']) = Inr [''12+34=46'']"
    using load_solutions_strips_and_skips [where l = "''  12+34=46 \<newline>''"]
    by (simp add: s4)
  from 1 2 3 4 show ?thesis by blast
qed

text \<open>
  Claim C8, as stated, promises the descriptive message for a source that is
  missing or unreadable. The check before loading is \<^verbatim>\<open>os.path.exists\<close>
  only: a file that exists and cannot be opened passes it, and the run ends
  with the exception of \<^verbatim>\<open>open\<close>, not with the message.
\<close>

theorem missing_source_is_fatal_counterexample:
  "main argsort_stable \<lparr>script_dir = ''/home/user'', data_file = Unreadable, results_file = None\<rparr>
     = (Raised OSError, \<lparr>script_dir = ''/home/user'', data_file = Unreadable, results_file = None\<rparr>)
   \<and> \<not> (\<exists>message. fst (main argsort_stable \<lparr>script_dir = ''/home/user'', data_file = Unreadable,
                                 results_file = None\<rparr>) = Exit message)"
  by (simp add: main_def load_solutions_def)

text \<open>
  Claim C8, amended. If the data file is missing, the run exits with the
  message that names the expected file and the place to download it from,
  and leaves the state as it was: nothing is computed, no table is written.
  If the file exists but cannot be read, the run ends too with the state
  unchanged, by the uncaught exception of \<^verbatim>\<open>open\<close>.
\<close>

theorem missing_source_is_fatal:
  "(data_file w = Missing \<longrightarrow>
      main argsort w = (Exit (''ERROR: '' @ data_path w @ '' not found. Download it from '' @
                      ''https://github.com/pedrokkrause/Nerdle-Equations''), w)
      \<and> (\<exists>dir. data_path w = dir @ ''NerdleClassicRestricted.txt''))
   \<and> (data_file w = Unreadable \<longrightarrow> main argsort w = (Raised OSError, w))"
  by (auto simp: main_def not_found_message_def load_solutions_def data_path_suffix)

text \<open>An instance of each case, the script being in \<^verbatim>\<open>/home/user\<close>.\<close>

theorem missing_source_is_fatal_witness:
  "main argsort_stable \<lparr>script_dir = ''/home/user'', data_file = Missing, results_file = None\<rparr>
     = (Exit (''ERROR: /home/user/NerdleClassicRestricted.txt not found. Download it from '' @
              ''https://github.com/pedrokkrause/Nerdle-Equations''),
        \<lparr>script_dir = ''/home/user'', data_file = Missing, results_file = None\<rparr>)
   \<and> main argsort_stable \<lparr>script_dir = ''/home/user'', data_file = Unreadable, results_file = None\<rparr>
     = (Raised OSError, \<lparr>script_dir = ''/home/user'', data_file = Unreadable, results_file = None\<rparr>)"
proof -
  let ?m = "\<lparr>script_dir = ''/home/user'', data_file = Missing, results_file = None\<rparr>"
  let ?u = "\<lparr>script_dir = ''/home/user'', data_file = Unreadable, results_file = None\<rparr>"
  have p: "data_path ?m = ''/home/user/NerdleClassicRestricted.txt''"
    by (simp add: data_path_def path_join_def)
  have "main argsort_stable ?m
        = (Exit (''ERROR: '' @ data_path ?m @ '' not found. Download it from '' @
                      ''https://github.com/pedrokkrause/Nerdle-Equations''), ?m)"
    using missing_source_is_fatal [of ?m argsort_stable] by simp
  moreover have "main argsort_stable ?u = (Raised OSError, ?u)"
    using missing_source_is_fatal [of ?u argsort_stable] by simp
  ultimately show ?thesis by (simp add: p)
qed

end
